theory Spec2Isabelle
  imports Main
begin

section \<open>The calendar core of \<^verbatim>\<open>frontend/assets/chatbot.js\<close>\<close>

text \<open>
  The development embeds the time arithmetic (\<^verbatim>\<open>parseTime\<close>, \<^verbatim>\<open>formatTime\<close>), the
  validation loop and the grid bounds of \<^verbatim>\<open>renderCalendar\<close>, and \<^verbatim>\<open>detectConflicts\<close>.

  Numbers. A JavaScript Number is a double; the values met here are integers or NaN (and
  \<open>+Infinity\<close> as the seed of one reduction). They are modelled as \<open>int\<close>, with NaN and
  \<open>+Infinity\<close> as constructors of their own where the code can produce them. The model
  is exact as long as every integer involved is below \<open>2 ^ 53\<close> in magnitude, which holds
  for every clock string of at most thirteen digits per component. Beyond that bound the
  code rounds and the model does not, so a statement below that rests on the value of an
  addition, a multiplication or a rounding to a multiple of 30, and not only on
  comparisons, bounds the numbers it speaks of.

  Strings. A string is a \<open>char list\<close>; the white space that \<^verbatim>\<open>parseInt\<close> skips is the
  part of ECMAScript's white space and line terminators that lies in Latin-1.
\<close>

subsection \<open>Numbers that may be NaN\<close>

datatype jsnum = NaN | Num int

fun jsMul :: "jsnum \<Rightarrow> int \<Rightarrow> jsnum" where
  "jsMul NaN k = NaN"
| "jsMul (Num a) k = Num (a * k)"

fun jsAdd :: "jsnum \<Rightarrow> jsnum \<Rightarrow> jsnum" where
  "jsAdd (Num a) (Num b) = Num (a + b)"
| "jsAdd _ _ = NaN"

subsection \<open>\<^verbatim>\<open>Number.parseInt(s, 10)\<close>\<close>

definition isWhiteSpace :: "char \<Rightarrow> bool" where
  "isWhiteSpace c \<longleftrightarrow> c \<in> {CHR 0x09, CHR 0x0A, CHR 0x0B, CHR 0x0C, CHR 0x0D, CHR 0x20, CHR 0xA0}"

definition isDigit :: "char \<Rightarrow> bool" where
  "isDigit c \<longleftrightarrow> c \<in> set ''0123456789''"

definition digitValue :: "char \<Rightarrow> int" where
  "digitValue c = int (of_char c) - 48"

definition digitsValue :: "string \<Rightarrow> int" where
  "digitsValue z = foldl (\<lambda>acc c. 10 * acc + digitValue c) 0 z"

text \<open>
  Leading white space is skipped, one sign is read, the longest prefix of decimal digits
  is the value, and no digit at all is NaN. With radix 10 no \<^verbatim>\<open>0x\<close> prefix is stripped.
  The result here is the mathematical integer of the digits; \<^verbatim>\<open>Number.parseInt\<close>
  returns the double nearest to it, which is the same number up to \<open>2 ^ 53\<close> and is
  rounded, or infinite, above.
\<close>

definition parseInt :: "string \<Rightarrow> jsnum" where
  "parseInt inputString =
     (let S = dropWhile isWhiteSpace inputString;
          sign = (case S of c # _ \<Rightarrow> if c = CHR ''-'' then - 1 else 1 | [] \<Rightarrow> 1);
          S' = (case S of c # r \<Rightarrow> if c = CHR ''+'' \<or> c = CHR ''-'' then r else S | [] \<Rightarrow> S);
          Z = takeWhile isDigit S'
      in if Z = [] then NaN else Num (sign * digitsValue Z))"

subsection \<open>\<^verbatim>\<open>String.prototype.split\<close> on one separator character\<close>

text \<open>The result is never empty: the empty string splits into one empty piece.\<close>

fun split :: "char \<Rightarrow> string \<Rightarrow> string list" where
  "split sep [] = [[]]"
| "split sep (c # cs) =
     (if c = sep then [] # split sep cs
      else (case split sep cs of p # ps \<Rightarrow> (c # p) # ps | [] \<Rightarrow> [[c]]))"

subsection \<open>\<^verbatim>\<open>parseTime\<close>\<close>

text \<open>
  \<^verbatim>\<open>const [hours = "0", minutes = "0"] = String(value).split(":")\<close>: a default applies
  only where the piece is missing (\<^verbatim>\<open>undefined\<close>), not where it is empty or not a number.
\<close>

definition hoursPart :: "string list \<Rightarrow> string" where
  "hoursPart parts = (case parts of h # _ \<Rightarrow> h | [] \<Rightarrow> ''0'')"

definition minutesPart :: "string list \<Rightarrow> string" where
  "minutesPart parts = (case parts of _ # m # _ \<Rightarrow> m | _ \<Rightarrow> ''0'')"

definition parseTime :: "string \<Rightarrow> jsnum" where
  "parseTime v =
     (let parts = split CHR '':'' v
      in jsAdd (jsMul (parseInt (hoursPart parts)) 60) (parseInt (minutesPart parts)))"

subsection \<open>\<^verbatim>\<open>formatTime\<close>\<close>

definition digitChar :: "nat \<Rightarrow> char" where
  "digitChar d = ''0123456789'' ! d"

text \<open>\<^verbatim>\<open>String(n)\<close> for an integer: decimal digits, with a minus sign when negative.\<close>

fun natString :: "nat \<Rightarrow> string" where
  "natString n = (if n < 10 then [digitChar n] else natString (n div 10) @ [digitChar (n mod 10)])"

declare natString.simps [simp del]

definition intString :: "int \<Rightarrow> string" where
  "intString i = (if i < 0 then CHR ''-'' # natString (nat (- i)) else natString (nat i))"

definition padStart :: "nat \<Rightarrow> char \<Rightarrow> string \<Rightarrow> string" where
  "padStart n c s = replicate (n - length s) c @ s"

text \<open>\<^verbatim>\<open>%\<close> takes the sign of the dividend; \<^verbatim>\<open>Math.floor(minutes / 60)\<close> rounds down.\<close>

definition jsRem :: "int \<Rightarrow> int \<Rightarrow> int" where
  "jsRem a b = (if a < 0 then - ((- a) mod \<bar>b\<bar>) else a mod \<bar>b\<bar>)"

definition formatTime :: "int \<Rightarrow> string" where
  "formatTime minutes =
     (let hrs = minutes div 60;
          mins = jsRem minutes 60
      in padStart 2 CHR ''0'' (intString hrs) @ '':'' @ padStart 2 CHR ''0'' (intString mins))"

subsection \<open>Schedule payload and events\<close>

datatype day = sun | mon | tue | wed | thu | fri | sat

definition DAY_ORDER :: "day list" where
  "DAY_ORDER = [sun, mon, tue, wed, thu, fri, sat]"

text \<open>
  An entry of the payload, \<^verbatim>\<open>{ from, to, course, title?, prof?, professor? }\<close>; an
  optional field that is absent is \<open>None\<close>.
\<close>

record entry =
  from' :: string
  to' :: string
  entry_course :: "string option"
  entry_title :: "string option"
  entry_prof :: "string option"
  entry_professor :: "string option"

text \<open>
  The object pushed by \<^verbatim>\<open>renderCalendar\<close>. It is created without a \<^verbatim>\<open>conflict\<close>
  property, which reads as false until \<^verbatim>\<open>detectConflicts\<close> sets it.
\<close>

record event =
  day :: day
  start :: int
  end' :: int
  course :: "string option"
  title :: string
  prof :: string
  conflict :: bool

text \<open>\<^verbatim>\<open>schedule[day]\<close> is \<open>None\<close> where it is missing or not an array.\<close>

type_synonym schedule = "day \<Rightarrow> entry list option"

definition nullish :: "'a option \<Rightarrow> 'a \<Rightarrow> 'a" where
  "nullish x d = (case x of Some v \<Rightarrow> v | None \<Rightarrow> d)"

text \<open>
  The test of the inner \<^verbatim>\<open>forEach\<close>:
  \<^verbatim>\<open>if (Number.isNaN(start) || Number.isNaN(end) || start >= end) return;\<close>
  \<open>None\<close> is the early return, \<open>Some\<close> the object that is pushed.
\<close>

definition validate :: "day \<Rightarrow> entry \<Rightarrow> event option" where
  "validate d e =
     (case parseTime (from' e) of
        NaN \<Rightarrow> None
      | Num s \<Rightarrow>
          (case parseTime (to' e) of
             NaN \<Rightarrow> None
           | Num t \<Rightarrow>
               if s \<ge> t then None
               else Some \<lparr> day = d, start = s, end' = t, course = entry_course e,
                           title = nullish (entry_title e) [],
                           prof = nullish (entry_prof e) (nullish (entry_professor e) []),
                           conflict = False \<rparr>))"

definition pushEntry :: "day \<Rightarrow> entry \<Rightarrow> event list \<Rightarrow> event list" where
  "pushEntry d e events = (case validate d e of None \<Rightarrow> events | Some ev \<Rightarrow> events @ [ev])"

definition collectDay :: "schedule \<Rightarrow> day \<Rightarrow> event list \<Rightarrow> event list" where
  "collectDay sched d events =
     (case sched d of None \<Rightarrow> events | Some entries \<Rightarrow> fold (pushEntry d) entries events)"

definition collectEvents :: "schedule \<Rightarrow> event list" where
  "collectEvents sched = fold (collectDay sched) DAY_ORDER []"

subsection \<open>\<^verbatim>\<open>detectConflicts\<close>\<close>

text \<open>
  The events are objects shared between the array \<^verbatim>\<open>events\<close> and the per-day lists,
  and the function mutates them. The array is the store: an object is its position in
  it, a per-day list holds positions, and setting \<^verbatim>\<open>conflict\<close> updates the store.
\<close>

type_synonym store = "event list"

definition setConflict :: "nat \<Rightarrow> store \<Rightarrow> store" where
  "setConflict i st = st[i := (st ! i)\<lparr>conflict := True\<rparr>]"

text \<open>
  The \<^verbatim>\<open>Map\<close> from day to list keeps its keys in insertion order; a new key gets a
  fresh list, and the object is appended to the list of its day.
\<close>

fun pushToDay :: "day \<Rightarrow> nat \<Rightarrow> (day \<times> nat list) list \<Rightarrow> (day \<times> nat list) list" where
  "pushToDay d i [] = [(d, [i])]"
| "pushToDay d i ((d', l) # m) =
     (if d' = d then (d', l @ [i]) # m else (d', l) # pushToDay d i m)"

definition eventsByDay :: "store \<Rightarrow> (day \<times> nat list) list" where
  "eventsByDay st = fold (\<lambda>i m. pushToDay (day (st ! i)) i m) [0..<length st] []"

text \<open>
  The loop over one sorted list: \<^verbatim>\<open>next\<close> is undefined at the last position, so only
  positions with a successor compare.
\<close>

fun scan :: "nat list \<Rightarrow> store \<times> bool \<Rightarrow> store \<times> bool" where
  "scan (current # next # rest) (st, conflictFound) =
     (if end' (st ! current) > start (st ! next)
      then scan (next # rest) (setConflict next (setConflict current st), True)
      else scan (next # rest) (st, conflictFound))"
| "scan _ s = s"

text \<open>
  \<^verbatim>\<open>list.sort((a, b) => a.start - b.start)\<close> is a stable sort by \<^verbatim>\<open>start\<close>, as is
  \<^const>\<open>sort_key\<close>.
\<close>

definition scanDay :: "nat list \<Rightarrow> store \<times> bool \<Rightarrow> store \<times> bool" where
  "scanDay l s = scan (sort_key (\<lambda>i. start (fst s ! i)) l) s"

text \<open>The result is the returned flag and the store after the call.\<close>

definition detectConflicts :: "store \<Rightarrow> bool \<times> store" where
  "detectConflicts events =
     (let (st, conflictFound) = fold (\<lambda>(d, l). scanDay l) (eventsByDay events) (events, False)
      in (conflictFound, st))"

subsection \<open>Grid bounds and layout in \<^verbatim>\<open>renderCalendar\<close>\<close>

text \<open>The accumulator of the \<^verbatim>\<open>minStart\<close> reduction starts at \<open>+Infinity\<close>.\<close>

datatype xint = Fin int | PosInf

fun jsMin :: "xint \<Rightarrow> int \<Rightarrow> xint" where
  "jsMin PosInf x = Fin x"
| "jsMin (Fin m) x = Fin (min m x)"

definition minStart :: "event list \<Rightarrow> xint" where
  "minStart events = foldl (\<lambda>m ev. jsMin m (start ev)) PosInf events"

definition maxEnd :: "event list \<Rightarrow> int" where
  "maxEnd events = foldl (\<lambda>m ev. max m (end' ev)) 0 events"

text \<open>
  \<^verbatim>\<open>Math.floor(x / 30) * 30\<close> and \<^verbatim>\<open>Math.ceil(x / 30) * 30\<close>, in exact integer
  arithmetic. The code divides doubles: for \<open>\<bar>x\<bar> \<le> 2 ^ 52\<close> the quotient is rounded by
  less than \<open>1 / 30\<close>, so its floor and ceiling are the exact ones and the product is
  exact; for larger \<open>x\<close> the code's result need not be a multiple of 30.
\<close>

fun floor30 :: "xint \<Rightarrow> xint" where
  "floor30 PosInf = PosInf"
| "floor30 (Fin m) = Fin (m div 30 * 30)"

definition ceil30 :: "int \<Rightarrow> int" where
  "ceil30 m = - ((- m) div 30) * 30"

definition calendarStart :: "event list \<Rightarrow> xint" where
  "calendarStart events = floor30 (minStart events)"

definition calendarEnd :: "event list \<Rightarrow> int" where
  "calendarEnd events = ceil30 (maxEnd events)"

text \<open>
  \<^verbatim>\<open>for (let time = calendarStart; time < calendarEnd; time += 30) slots.push(time)\<close>.
  Here \<open>time + 30\<close> is exact and the loop always ends. In the code that holds while
  \<open>time\<close> stays below \<open>2 ^ 53\<close>; far above it \<^verbatim>\<open>time += 30\<close> leaves \<open>time\<close> as it is.
\<close>

function slotLoop :: "int \<Rightarrow> int \<Rightarrow> int list" where
  "slotLoop time cEnd = (if time < cEnd then time # slotLoop (time + 30) cEnd else [])"
  by pat_completeness auto
termination
  by (relation "measure (\<lambda>(time, cEnd). nat (cEnd - time))") auto

declare slotLoop.simps [simp del]

text \<open>\<open>+Infinity < calendarEnd\<close> is false: the loop body never runs.\<close>

definition slotsOf :: "xint \<Rightarrow> int \<Rightarrow> int list" where
  "slotsOf cStart cEnd = (case cStart of Fin s \<Rightarrow> slotLoop s cEnd | PosInf \<Rightarrow> [])"

text \<open>\<^verbatim>\<open>Array.prototype.indexOf\<close>: the first position, or \<open>-1\<close>.\<close>

fun indexOf :: "'a list \<Rightarrow> 'a \<Rightarrow> int" where
  "indexOf [] x = - 1"
| "indexOf (y # ys) x = (if y = x then 0 else (let r = indexOf ys x in if r < 0 then r else r + 1))"

text \<open>
  What the renderer is given for one event: grid column, the half-open row range, the
  conflict attribute and the time label. The escaped display texts are left out.
\<close>

record block =
  gridColumn :: int
  startRow :: int
  endRow :: int
  dataConflict :: bool
  timeLabel :: string

definition placeEvent :: "int \<Rightarrow> event \<Rightarrow> block list \<Rightarrow> block list" where
  "placeEvent cStart ev blocks =
     (let dayIndex = indexOf DAY_ORDER (day ev) + 1
      in if dayIndex \<le> 0 then blocks
         else blocks @ [\<lparr> gridColumn = dayIndex,
                          startRow = (start ev - cStart) div 30 + 1,
                          endRow = - ((- (end' ev - cStart)) div 30) + 1,
                          dataConflict = conflict ev,
                          timeLabel = formatTime (start ev) @ '' - '' @ formatTime (end' ev) \<rparr>])"

text \<open>
  The outcome of \<^verbatim>\<open>renderCalendar\<close>: the placeholder paragraph, or the calendar with
  its banner flag, its slots and its blocks. An infinite \<open>calendarStart\<close> would mean that
  there is no event to place.
\<close>

datatype rendering =
  Placeholder
| Calendar (banner: bool) (slots: "int list") (blocks: "block list")

definition renderCalendar :: "schedule \<Rightarrow> rendering" where
  "renderCalendar sched =
     (let events = collectEvents sched
      in if events = [] then Placeholder
         else
           (let cStart = calendarStart events;
                cEnd = calendarEnd events;
                slots = slotsOf cStart cEnd;
                (conflictFound, events') = detectConflicts events;
                blocks = (case cStart of Fin s \<Rightarrow> fold (placeEvent s) events' [] | PosInf \<Rightarrow> [])
            in Calendar conflictFound slots blocks))"

subsection \<open>Auxiliary notions and sample inputs\<close>

text \<open>The events that one day key of the payload contributes, in order.\<close>

definition dayEvents :: "schedule \<Rightarrow> day \<Rightarrow> event list" where
  "dayEvents sched d =
     (case sched d of None \<Rightarrow> [] | Some es \<Rightarrow> List.map_filter (validate d) es)"

text \<open>An entry with its three mandatory fields, and the event object it becomes.\<close>

definition mkEntry :: "string \<Rightarrow> string \<Rightarrow> string \<Rightarrow> entry" where
  "mkEntry f t c = \<lparr> from' = f, to' = t, entry_course = Some c, entry_title = None,
                    entry_prof = None, entry_professor = None \<rparr>"

definition mkEvent :: "day \<Rightarrow> int \<Rightarrow> int \<Rightarrow> string \<Rightarrow> event" where
  "mkEvent d s t c = \<lparr> day = d, start = s, end' = t, course = Some c, title = [], prof = [],
                       conflict = False \<rparr>"

text \<open>The payloads \<^verbatim>\<open>{}\<close> and \<^verbatim>\<open>{ d: entries }\<close>.\<close>

definition emptySchedule :: schedule where
  "emptySchedule = (\<lambda>d. None)"

definition oneDay :: "day \<Rightarrow> entry list \<Rightarrow> schedule" where
  "oneDay d es = (\<lambda>d'. if d' = d then Some es else None)"

subsection \<open>Notions for stating what \<^verbatim>\<open>detectConflicts\<close> computes\<close>

text \<open>
  The list of a day as the loop scans it: the positions of the day's events, in input
  order, then sorted stably by \<^verbatim>\<open>start\<close>.
\<close>

definition sortedDay :: "store \<Rightarrow> day \<Rightarrow> nat list" where
  "sortedDay st d = sort_key (\<lambda>i. start (st ! i)) (filter (\<lambda>i. day (st ! i) = d) [0..<length st])"

text \<open>The positions that a scan of the list \<open>l\<close> marks.\<close>

fun hits :: "store \<Rightarrow> nat list \<Rightarrow> nat set" where
  "hits st (c # n # rest) =
     (if end' (st ! c) > start (st ! n) then {c, n} else {}) \<union> hits st (n # rest)"
| "hits st _ = {}"

text \<open>The store with the events at the positions in \<open>H\<close> marked.\<close>

definition markSet :: "nat set \<Rightarrow> store \<Rightarrow> store" where
  "markSet H st = map (\<lambda>k. if k \<in> H then (st ! k)\<lparr>conflict := True\<rparr> else st ! k) [0..<length st]"

text \<open>
  The full pairwise comparison, in the words of the specification: two intervals overlap
  when each starts before the other ends, and an event is in conflict when it overlaps
  another event of its day.
\<close>

definition overlaps :: "event \<Rightarrow> event \<Rightarrow> bool" where
  "overlaps a b \<longleftrightarrow> start a < end' b \<and> start b < end' a"

definition conflictsPairwise :: "store \<Rightarrow> nat \<Rightarrow> bool" where
  "conflictsPairwise st i \<longleftrightarrow>
     list_ex (\<lambda>j. j \<noteq> i \<and> day (st ! j) = day (st ! i) \<and> overlaps (st ! i) (st ! j)) [0..<length st]"

definition markPairwise :: "store \<Rightarrow> store" where
  "markPairwise st =
     map (\<lambda>i. if conflictsPairwise st i then (st ! i)\<lparr>conflict := True\<rparr> else st ! i) [0..<length st]"

section \<open>Time arithmetic\<close>

lemma lt10_cases:
  "d < (10::nat) \<Longrightarrow>
     d = 0 \<or> d = 1 \<or> d = 2 \<or> d = 3 \<or> d = 4 \<or> d = 5 \<or> d = 6 \<or> d = 7 \<or> d = 8 \<or> d = 9"
  by arith

lemma digitChar_props:
  assumes "d < 10"
  shows "isDigit (digitChar d)" and "\<not> isWhiteSpace (digitChar d)"
    and "digitChar d \<noteq> CHR '':''" and "digitChar d \<noteq> CHR ''+''" and "digitChar d \<noteq> CHR ''-''"
    and "digitValue (digitChar d) = int d"
  using lt10_cases [OF assms]
  by (auto simp: digitChar_def isDigit_def isWhiteSpace_def digitValue_def)

lemma pad_natString:
  assumes "n < 100"
  shows "padStart 2 CHR ''0'' (natString n) = [digitChar (n div 10), digitChar (n mod 10)]"
proof (cases "n < 10")
  case True
  then show ?thesis
    by (simp add: natString.simps [of n] padStart_def digitChar_def)
next
  case False
  with assms have "n div 10 < 10" by simp
  with False show ?thesis
    by (simp add: natString.simps [of n] natString.simps [of "n div 10"] padStart_def)
qed

lemma split_two_digits:
  assumes "a \<noteq> CHR '':''" "b \<noteq> CHR '':''" "c \<noteq> CHR '':''" "d \<noteq> CHR '':''"
  shows "split CHR '':'' ([a, b] @ '':'' @ [c, d]) = [[a, b], [c, d]]"
  using assms by simp

lemma parseInt_two_digits:
  assumes "a < 10" "b < 10"
  shows "parseInt [digitChar a, digitChar b] = Num (10 * int a + int b)"
  using digitChar_props [OF assms(1)] digitChar_props [OF assms(2)]
  by (simp add: parseInt_def digitsValue_def)

lemma formatTime_shape:
  assumes "0 \<le> x" "x < 1440"
  shows "formatTime x =
           [digitChar (nat (x div 60) div 10), digitChar (nat (x div 60) mod 10), CHR '':'',
            digitChar (nat (x mod 60) div 10), digitChar (nat (x mod 60) mod 10)]"
proof -
  have nn: "0 \<le> x div 60" using assms by (simp add: pos_imp_zdiv_nonneg_iff)
  have mm: "\<not> x mod 60 < 0" by simp
  have "nat (x div 60) < 100" "nat (x mod 60) < 100" using assms by auto
  then show ?thesis
    using assms nn mm by (simp add: formatTime_def jsRem_def intString_def pad_natString Let_def)
qed

lemma parseTime_formatTime:
  assumes "0 \<le> x" "x < 1440"
  shows "parseTime (formatTime x) = Num x"
proof -
  define h where "h = nat (x div 60)"
  define m where "m = nat (x mod 60)"
  have nn: "0 \<le> x div 60" using assms by (simp add: pos_imp_zdiv_nonneg_iff)
  have x: "x = 60 * int h + int m" using assms nn by (simp add: h_def m_def)
  have d: "h div 10 < 10" "h mod 10 < 10" "m div 10 < 10" "m mod 10 < 10"
    using assms by (auto simp: h_def m_def)
  have fmt: "formatTime x = [digitChar (h div 10), digitChar (h mod 10)] @ '':'' @
                            [digitChar (m div 10), digitChar (m mod 10)]"
    using formatTime_shape [OF assms] by (simp add: h_def m_def)
  have sp: "split CHR '':'' (formatTime x) =
        [[digitChar (h div 10), digitChar (h mod 10)], [digitChar (m div 10), digitChar (m mod 10)]]"
    unfolding fmt by (rule split_two_digits) (simp_all add: digitChar_props d)
  have "parseTime (formatTime x) =
          Num ((10 * int (h div 10) + int (h mod 10)) * 60 + (10 * int (m div 10) + int (m mod 10)))"
    by (simp add: parseTime_def sp hoursPart_def minutesPart_def parseInt_two_digits d)
  also have "10 * int (h div 10) + int (h mod 10) = int h" by presburger
  also have "10 * int (m div 10) + int (m mod 10) = int m" by presburger
  finally show ?thesis using x by simp
qed

text \<open>
  Claim C6. For every minute value \<open>x\<close> in \<open>[0, 1440)\<close>, \<^verbatim>\<open>formatTime\<close> writes two
  zero-padded digits for the hour, a colon and two zero-padded digits for the minute, and
  \<^verbatim>\<open>parseTime\<close> reads \<open>x\<close> back from that string.
\<close>

theorem C6_parse_format_roundtrip:
  assumes "0 \<le> x" and "x < 1440"
  shows "parseTime (formatTime x) = Num x \<and>
         formatTime x =
           [digitChar (nat (x div 60) div 10), digitChar (nat (x div 60) mod 10), CHR '':'',
            digitChar (nat (x mod 60) div 10), digitChar (nat (x mod 60) mod 10)]"
  using parseTime_formatTime [OF assms] formatTime_shape [OF assms] by simp

theorem C6_parse_format_roundtrip_witness:
  "parseTime (formatTime 545) = Num 545 \<and> formatTime 545 = ''09:05''"
proof -
  have a: "(0::int) \<le> 545" and b: "(545::int) < 1440" by simp_all
  have "parseTime (formatTime 545) = Num 545"
    using C6_parse_format_roundtrip [OF a b] by (rule conjunct1)
  moreover have "formatTime 545 = ''09:05''" by code_simp
  ultimately show ?thesis by (rule conjI)
qed

section \<open>Validation\<close>

lemma set_map_filter_iff: "y \<in> set (List.map_filter f xs) \<longleftrightarrow> (\<exists>x\<in>set xs. f x = Some y)"
  by (induction xs) (auto split: option.splits)

lemma fold_pushEntry:
  "fold (pushEntry d) es events = events @ List.map_filter (validate d) es"
  by (induction es arbitrary: events)
     (auto simp: pushEntry_def split: option.splits)

lemma collectDay_append: "collectDay sched d events = events @ dayEvents sched d"
  by (simp add: collectDay_def dayEvents_def fold_pushEntry split: option.splits)

lemma fold_collectDay:
  "fold (collectDay sched) ds events = events @ concat (map (dayEvents sched) ds)"
  by (induction ds arbitrary: events) (simp_all add: collectDay_append)

lemma collectEvents_concat: "collectEvents sched = concat (map (dayEvents sched) DAY_ORDER)"
  by (simp add: collectEvents_def fold_collectDay)

lemma day_in_DAY_ORDER: "d \<in> set DAY_ORDER"
  by (cases d) (simp_all add: DAY_ORDER_def)

lemma set_dayEvents:
  "ev \<in> set (dayEvents sched d) \<longleftrightarrow>
     (\<exists>es e. sched d = Some es \<and> e \<in> set es \<and> validate d e = Some ev)"
  by (cases "sched d") (auto simp: dayEvents_def set_map_filter_iff)

lemma set_collectEvents:
  "ev \<in> set (collectEvents sched) \<longleftrightarrow>
     (\<exists>d es e. sched d = Some es \<and> e \<in> set es \<and> validate d e = Some ev)"
proof -
  have "ev \<in> set (collectEvents sched) \<longleftrightarrow> (\<exists>d. ev \<in> set (dayEvents sched d))"
    by (auto simp: collectEvents_concat day_in_DAY_ORDER)
  then show ?thesis by (simp add: set_dayEvents)
qed

lemma validate_Some:
  assumes "validate d e = Some ev"
  shows "parseTime (from' e) = Num (start ev)" and "parseTime (to' e) = Num (end' ev)"
    and "start ev < end' ev" and "day ev = d" and "\<not> conflict ev"
  using assms by (auto simp: validate_def split: jsnum.splits if_splits)

lemma validate_None:
  assumes "parseTime (from' e) = NaN \<or> parseTime (to' e) = NaN \<or>
           (\<exists>s t. parseTime (from' e) = Num s \<and> parseTime (to' e) = Num t \<and> t \<le> s)"
  shows "validate d e = None"
  using assms by (auto simp: validate_def split: jsnum.splits)

lemma map_filter_drop:
  "f x = None \<Longrightarrow> List.map_filter f (xs @ x # ys) = List.map_filter f (xs @ ys)"
  by (simp add: List.map_filter_def)

lemma collectEvents_drop:
  assumes "validate d e = None"
  shows "collectEvents (sched(d := Some (es1 @ e # es2))) = collectEvents (sched(d := Some (es1 @ es2)))"
proof -
  have "dayEvents (sched(d := Some (es1 @ e # es2))) = dayEvents (sched(d := Some (es1 @ es2)))"
    using assms by (auto simp: dayEvents_def fun_eq_iff map_filter_drop)
  then show ?thesis by (simp add: collectEvents_concat)
qed

text \<open>
  Claim C5. An entry whose start or end parses to NaN, or whose parsed start is not below
  its parsed end, is dropped without any error: the loop leaves the event array as it
  was, and the rendering is the one of the payload without that entry. Every event that
  is retained comes from an entry that passed the test and has its start below its end.
\<close>

theorem C5_invalid_interval_dropped:
  "(parseTime (from' e) = NaN \<or> parseTime (to' e) = NaN \<or>
      (\<exists>s t. parseTime (from' e) = Num s \<and> parseTime (to' e) = Num t \<and> t \<le> s)
    \<longrightarrow> validate d e = None \<and> pushEntry d e events = events \<and>
        collectEvents (sched(d := Some (es1 @ e # es2))) =
          collectEvents (sched(d := Some (es1 @ es2))) \<and>
        renderCalendar (sched(d := Some (es1 @ e # es2))) =
          renderCalendar (sched(d := Some (es1 @ es2)))) \<and>
   (\<forall>ev \<in> set (collectEvents sched).
      start ev < end' ev \<and>
      (\<exists>d' es e'. sched d' = Some es \<and> e' \<in> set es \<and> validate d' e' = Some ev))"
proof (intro conjI impI ballI)
  assume bad: "parseTime (from' e) = NaN \<or> parseTime (to' e) = NaN \<or>
      (\<exists>s t. parseTime (from' e) = Num s \<and> parseTime (to' e) = Num t \<and> t \<le> s)"
  show none: "validate d e = None" by (rule validate_None [OF bad])
  then show "pushEntry d e events = events" by (simp add: pushEntry_def)
  show eq: "collectEvents (sched(d := Some (es1 @ e # es2))) =
          collectEvents (sched(d := Some (es1 @ es2)))"
    by (rule collectEvents_drop [OF none])
  show "renderCalendar (sched(d := Some (es1 @ e # es2))) =
          renderCalendar (sched(d := Some (es1 @ es2)))"
    by (simp only: renderCalendar_def eq)
next
  fix ev assume "ev \<in> set (collectEvents sched)"
  then obtain d' es e' where *: "sched d' = Some es" "e' \<in> set es" "validate d' e' = Some ev"
    by (auto simp: set_collectEvents)
  then show "start ev < end' ev" by (simp add: validate_Some)
  from * show "\<exists>d' es e'. sched d' = Some es \<and> e' \<in> set es \<and> validate d' e' = Some ev"
    by blast
qed

theorem C5_invalid_interval_dropped_witness:
  "parseTime (from' (mkEntry ''11:00'' ''10:00'' ''X'')) = Num 660 \<and>
   parseTime (to' (mkEntry ''11:00'' ''10:00'' ''X'')) = Num 600 \<and>
   pushEntry mon (mkEntry ''11:00'' ''10:00'' ''X'') [mkEvent mon 540 600 ''Y''] =
     [mkEvent mon 540 600 ''Y''] \<and>
   collectEvents (oneDay mon [mkEntry ''09:00'' ''10:00'' ''Y'', mkEntry ''11:00'' ''10:00'' ''X'']) =
     [mkEvent mon 540 600 ''Y''] \<and>
   start (mkEvent mon 540 600 ''Y'') < end' (mkEvent mon 540 600 ''Y'')"
proof -
  have p: "parseTime (from' (mkEntry ''11:00'' ''10:00'' ''X'')) = Num 660"
          "parseTime (to' (mkEntry ''11:00'' ''10:00'' ''X'')) = Num 600"
    by code_simp+
  have c: "collectEvents (oneDay mon [mkEntry ''09:00'' ''10:00'' ''Y'', mkEntry ''11:00'' ''10:00'' ''X'']) =
     [mkEvent mon 540 600 ''Y'']"
    by code_simp
  show ?thesis
    using p c
      C5_invalid_interval_dropped [of "mkEntry ''11:00'' ''10:00'' ''X''" mon
        "[mkEvent mon 540 600 ''Y'']"
        "oneDay mon [mkEntry ''09:00'' ''10:00'' ''Y'', mkEntry ''11:00'' ''10:00'' ''X'']"]
    by simp
qed

text \<open>
  Claim C2, as stated, fails: \<^verbatim>\<open>Number.parseInt("bad", 10)\<close> is NaN, not \<open>0\<close>, so
  the start of \<^verbatim>\<open>{from: "bad", to: "10:00"}\<close> is NaN and the entry is dropped by the
  NaN test.
\<close>

theorem C2_bad_start_counterexample:
  "\<not> (parseTime ''bad'' = Num 0 \<or>
      validate tue (mkEntry ''bad'' ''10:00'' ''X'') = Some (mkEvent tue 0 600 ''X'') \<or>
      collectEvents (oneDay tue [mkEntry ''bad'' ''10:00'' ''X'']) \<noteq> [])"
  by code_simp

text \<open>
  Claim C2, amended. For the entry \<^verbatim>\<open>{day: tue, from: "bad", to: "10:00"}\<close> the
  non-numeric hour component makes the parsed start NaN (only a missing component
  defaults to \<open>0\<close>, as in \<^verbatim>\<open>"10"\<close>, which parses to 600); the end parses to 600; the
  entry fails the NaN test and is dropped, and with no other entry the placeholder is
  rendered.
\<close>

theorem C2_bad_start_is_dropped:
  "parseTime ''bad'' = NaN \<and> parseTime ''10:00'' = Num 600 \<and> parseTime ''10'' = Num 600 \<and>
   validate tue (mkEntry ''bad'' ''10:00'' ''X'') = None \<and>
   collectEvents (oneDay tue [mkEntry ''bad'' ''10:00'' ''X'']) = [] \<and>
   renderCalendar (oneDay tue [mkEntry ''bad'' ''10:00'' ''X'']) = Placeholder"
  by code_simp

text \<open>
  Claim C8, as stated, fails: \<^verbatim>\<open>{from: "25:00", to: "26:00"}\<close> passes validation with
  start 1500 and end 1560, outside \<open>[0, 1440)\<close>.
\<close>

theorem C8_range_counterexample:
  "validate mon (mkEntry ''25:00'' ''26:00'' ''X'') = Some (mkEvent mon 1500 1560 ''X'') \<and>
   collectEvents (oneDay mon [mkEntry ''25:00'' ''26:00'' ''X'']) = [mkEvent mon 1500 1560 ''X''] \<and>
   \<not> start (mkEvent mon 1500 1560 ''X'') < 1440 \<and>
   \<not> end' (mkEvent mon 1500 1560 ''X'') < 1440"
  by code_simp

text \<open>
  Claim C8, amended. Validation tests only NaN and start against end; it does not check
  the range. When the hour component of each of the two strings of an entry parses to a
  number from 0 to 23 and the minute component to a number from 0 to 59, an event
  retained for the entry has as start and end the integer minutes since midnight
  \<open>60 * hours + minutes\<close> of the two strings, both in \<open>[0, 1440)\<close>, with start below end.
  That is the case for an entry whose strings are \<^verbatim>\<open>formatTime\<close> of two times \<open>a < b\<close> of
  that range, and such an entry is retained with start \<open>a\<close> and end \<open>b\<close>.
\<close>

theorem C8_retained_endpoints:
  "(validate d e = Some ev \<and>
    parseInt (hoursPart (split CHR '':'' (from' e))) = Num h1 \<and>
    parseInt (minutesPart (split CHR '':'' (from' e))) = Num m1 \<and>
    parseInt (hoursPart (split CHR '':'' (to' e))) = Num h2 \<and>
    parseInt (minutesPart (split CHR '':'' (to' e))) = Num m2 \<and>
    0 \<le> h1 \<and> h1 \<le> 23 \<and> 0 \<le> m1 \<and> m1 \<le> 59 \<and>
    0 \<le> h2 \<and> h2 \<le> 23 \<and> 0 \<le> m2 \<and> m2 \<le> 59
    \<longrightarrow> start ev = 60 * h1 + m1 \<and> end' ev = 60 * h2 + m2 \<and>
        0 \<le> start ev \<and> start ev < end' ev \<and> end' ev < 1440) \<and>
   (0 \<le> a \<and> a < b \<and> b < 1440 \<and> from' e = formatTime a \<and> to' e = formatTime b \<longrightarrow>
      (\<exists>ev'. validate d e = Some ev' \<and> start ev' = a \<and> end' ev' = b))"
proof (intro conjI impI)
  assume h: "validate d e = Some ev \<and>
    parseInt (hoursPart (split CHR '':'' (from' e))) = Num h1 \<and>
    parseInt (minutesPart (split CHR '':'' (from' e))) = Num m1 \<and>
    parseInt (hoursPart (split CHR '':'' (to' e))) = Num h2 \<and>
    parseInt (minutesPart (split CHR '':'' (to' e))) = Num m2 \<and>
    0 \<le> h1 \<and> h1 \<le> 23 \<and> 0 \<le> m1 \<and> m1 \<le> 59 \<and>
    0 \<le> h2 \<and> h2 \<le> 23 \<and> 0 \<le> m2 \<and> m2 \<le> 59"
  then have v: "validate d e = Some ev" by simp
  from h have "parseTime (from' e) = Num (60 * h1 + m1)" "parseTime (to' e) = Num (60 * h2 + m2)"
    by (simp_all add: parseTime_def)
  with validate_Some(1,2) [OF v] show s: "start ev = 60 * h1 + m1" and e: "end' ev = 60 * h2 + m2"
    by simp_all
  show "start ev < end' ev" by (rule validate_Some(3) [OF v])
  show "0 \<le> start ev" using h unfolding s by simp
  show "end' ev < 1440" using h unfolding e by simp
next
  assume h: "0 \<le> a \<and> a < b \<and> b < 1440 \<and> from' e = formatTime a \<and> to' e = formatTime b"
  then have "parseTime (from' e) = Num a" "parseTime (to' e) = Num b"
    by (simp_all add: parseTime_formatTime)
  with h show "\<exists>ev'. validate d e = Some ev' \<and> start ev' = a \<and> end' ev' = b"
    by (simp add: validate_def)
qed

theorem C8_retained_endpoints_witness:
  "validate wed (mkEntry ''09:05'' ''10:20'' ''X'') = Some (mkEvent wed 545 620 ''X'') \<and>
   parseInt (hoursPart (split CHR '':'' (from' (mkEntry ''09:05'' ''10:20'' ''X'')))) = Num 9 \<and>
   parseInt (minutesPart (split CHR '':'' (from' (mkEntry ''09:05'' ''10:20'' ''X'')))) = Num 5 \<and>
   parseInt (hoursPart (split CHR '':'' (to' (mkEntry ''09:05'' ''10:20'' ''X'')))) = Num 10 \<and>
   parseInt (minutesPart (split CHR '':'' (to' (mkEntry ''09:05'' ''10:20'' ''X'')))) = Num 20 \<and>
   start (mkEvent wed 545 620 ''X'') = 60 * 9 + 5 \<and>
   end' (mkEvent wed 545 620 ''X'') = 60 * 10 + 20 \<and>
   0 \<le> start (mkEvent wed 545 620 ''X'') \<and>
   start (mkEvent wed 545 620 ''X'') < end' (mkEvent wed 545 620 ''X'') \<and>
   end' (mkEvent wed 545 620 ''X'') < 1440"
proof -
  let ?e = "mkEntry ''09:05'' ''10:20'' ''X''"
  let ?ev = "mkEvent wed 545 620 ''X''"
  have v: "validate wed ?e = Some ?ev"
    by code_simp
  have p1: "parseInt (hoursPart (split CHR '':'' (from' ?e))) = Num 9"
    and p2: "parseInt (minutesPart (split CHR '':'' (from' ?e))) = Num 5"
    and p3: "parseInt (hoursPart (split CHR '':'' (to' ?e))) = Num 10"
    and p4: "parseInt (minutesPart (split CHR '':'' (to' ?e))) = Num 20"
    by code_simp+
  have hyp: "validate wed ?e = Some ?ev \<and>
    parseInt (hoursPart (split CHR '':'' (from' ?e))) = Num 9 \<and>
    parseInt (minutesPart (split CHR '':'' (from' ?e))) = Num 5 \<and>
    parseInt (hoursPart (split CHR '':'' (to' ?e))) = Num 10 \<and>
    parseInt (minutesPart (split CHR '':'' (to' ?e))) = Num 20 \<and>
    (0::int) \<le> 9 \<and> (9::int) \<le> 23 \<and> (0::int) \<le> 5 \<and> (5::int) \<le> 59 \<and>
    (0::int) \<le> 10 \<and> (10::int) \<le> 23 \<and> (0::int) \<le> 20 \<and> (20::int) \<le> 59"
    by (intro conjI v p1 p2 p3 p4) simp_all
  have "start ?ev = 60 * 9 + 5 \<and> end' ?ev = 60 * 10 + 20 \<and>
        0 \<le> start ?ev \<and> start ?ev < end' ?ev \<and> end' ?ev < 1440"
    by (rule C8_retained_endpoints
          [where d = wed and e = ?e and ev = ?ev and ?h1.0 = 9 and ?m1.0 = 5 and ?h2.0 = 10
             and ?m2.0 = 20, THEN conjunct1, THEN mp, OF hyp])
  with v p1 p2 p3 p4 show ?thesis by (intro conjI) simp_all
qed

section \<open>The empty event set\<close>

text \<open>
  Claim C9. When validation retains no event, \<^verbatim>\<open>renderCalendar\<close> returns after
  writing the placeholder paragraph: the outcome is the placeholder, which has neither
  slots nor blocks, and not a calendar, not even one with no slot and no block.
\<close>

theorem C9_no_events_placeholder:
  assumes "collectEvents sched = []"
  shows "renderCalendar sched = Placeholder \<and> renderCalendar sched \<noteq> Calendar b [] []"
  using assms by (simp add: renderCalendar_def)

theorem C9_no_events_placeholder_witness:
  "collectEvents emptySchedule = [] \<and> renderCalendar emptySchedule = Placeholder"
proof -
  have h: "collectEvents emptySchedule = []" by code_simp
  from C9_no_events_placeholder [OF h] have "renderCalendar emptySchedule = Placeholder"
    by (rule conjunct1)
  with h show ?thesis by (rule conjI)
qed

section \<open>Grid bounds and slots\<close>
















section \<open>Conflict detection\<close>

subsection \<open>Marking\<close>

lemma length_markSet [simp]: "length (markSet H st) = length st"
  by (simp add: markSet_def)

lemma nth_markSet:
  "k < length st \<Longrightarrow>
     markSet H st ! k = (if k \<in> H then (st ! k)\<lparr>conflict := True\<rparr> else st ! k)"
  by (simp add: markSet_def)

lemma markSet_empty [simp]: "markSet {} st = st"
  by (simp add: markSet_def map_nth)

lemma setConflict_markSet:
  "i < length st \<Longrightarrow> setConflict i (markSet H st) = markSet (insert i H) st"
  by (rule nth_equalityI) (auto simp: setConflict_def nth_markSet nth_list_update)

lemma start_markSet [simp]: "k < length st \<Longrightarrow> start (markSet H st ! k) = start (st ! k)"
  and end_markSet [simp]: "k < length st \<Longrightarrow> end' (markSet H st ! k) = end' (st ! k)"
  by (simp_all add: nth_markSet)

subsection \<open>One scan\<close>

lemma hits_subset: "hits st l \<subseteq> set l"
  by (induction st l rule: hits.induct) auto

lemma scan_markSet:
  "set l \<subseteq> {..<length st} \<Longrightarrow>
     scan l (markSet H st, f) = (markSet (H \<union> hits st l) st, f \<or> hits st l \<noteq> {})"
proof (induction st l arbitrary: H f rule: hits.induct)
  case (1 st c n rest)
  then have c: "c < length st" and n: "n < length st" and r: "set (n # rest) \<subseteq> {..<length st}"
    by auto
  show ?case
  proof (cases "end' (st ! c) > start (st ! n)")
    case True
    have "scan (c # n # rest) (markSet H st, f) =
            scan (n # rest) (markSet (insert n (insert c H)) st, True)"
      using True c n by (simp add: setConflict_markSet)
    also have "\<dots> = (markSet (insert n (insert c H) \<union> hits st (n # rest)) st, True)"
      using "1.IH" [OF r] by simp
    finally show ?thesis using True by (simp add: Un_commute insert_commute)
  next
    case False
    have "scan (c # n # rest) (markSet H st, f) = scan (n # rest) (markSet H st, f)"
      using False c n by simp
    then show ?thesis using "1.IH" [OF r] False by simp
  qed
qed simp_all

lemma insort_key_cong_set:
  "(\<And>y. y \<in> insert x (set xs) \<Longrightarrow> f y = g y) \<Longrightarrow> insort_key f x xs = insort_key g x xs"
  by (induction xs) auto

lemma sort_key_cong_set:
  "(\<And>y. y \<in> set xs \<Longrightarrow> f y = g y) \<Longrightarrow> sort_key f xs = sort_key g xs"
proof (induction xs)
  case Nil
  show ?case by simp
next
  case (Cons x xs)
  then have "sort_key f xs = sort_key g xs" by simp
  moreover have "insort_key f x (sort_key g xs) = insort_key g x (sort_key g xs)"
    using Cons.prems by (intro insort_key_cong_set) auto
  ultimately show ?case by simp
qed

lemma scanDay_markSet:
  assumes "set l \<subseteq> {..<length st}"
  shows "scanDay l (markSet H st, f) =
           (markSet (H \<union> hits st (sort_key (\<lambda>i. start (st ! i)) l)) st,
            f \<or> hits st (sort_key (\<lambda>i. start (st ! i)) l) \<noteq> {})"
proof -
  have "sort_key (\<lambda>i. start (markSet H st ! i)) l = sort_key (\<lambda>i. start (st ! i)) l"
    using assms by (intro sort_key_cong_set) auto
  then show ?thesis using assms by (simp add: scanDay_def scan_markSet)
qed

lemma fold_scanDay:
  assumes "\<forall>(d, l) \<in> set m. set l \<subseteq> {..<length st}"
  shows "fold (\<lambda>(d, l). scanDay l) m (markSet H st, f) =
           (markSet (H \<union> (\<Union>(d, l) \<in> set m. hits st (sort_key (\<lambda>i. start (st ! i)) l))) st,
            f \<or> (\<exists>(d, l) \<in> set m. hits st (sort_key (\<lambda>i. start (st ! i)) l) \<noteq> {}))"
  using assms
proof (induction m arbitrary: H f)
  case Nil
  show ?case by simp
next
  case (Cons p m)
  obtain d l where p: "p = (d, l)" by (cases p)
  with Cons.prems have l: "set l \<subseteq> {..<length st}" and m: "\<forall>(d, l) \<in> set m. set l \<subseteq> {..<length st}"
    by auto
  show ?case
    unfolding p by (simp add: scanDay_markSet [OF l] Cons.IH [OF m] Un_assoc)
qed

subsection \<open>Grouping by day\<close>

lemma map_of_pushToDay:
  "map_of (pushToDay d i m) d' =
     (if d' = d then Some ((case map_of m d of None \<Rightarrow> [] | Some l \<Rightarrow> l) @ [i]) else map_of m d')"
  by (induction m) auto

lemma keys_pushToDay: "fst ` set (pushToDay d i m) = insert d (fst ` set m)"
  by (induction m) force+

lemma distinct_pushToDay:
  "distinct (map fst m) \<Longrightarrow> distinct (map fst (pushToDay d i m))"
proof (induction m)
  case Nil
  show ?case by simp
next
  case (Cons p m)
  obtain d' l where p: "p = (d', l)" by (cases p)
  show ?case using Cons unfolding p by (auto simp: keys_pushToDay)
qed

lemma distinct_fold_pushToDay:
  "distinct (map fst m) \<Longrightarrow>
     distinct (map fst (fold (\<lambda>i m. pushToDay (day (st ! i)) i m) is m))"
  by (induction "is" arbitrary: m) (simp_all add: distinct_pushToDay)

lemma map_of_fold_pushToDay:
  "map_of (fold (\<lambda>i m. pushToDay (day (st ! i)) i m) is m) d =
     (if \<exists>i \<in> set is. day (st ! i) = d
      then Some ((case map_of m d of None \<Rightarrow> [] | Some l \<Rightarrow> l) @ filter (\<lambda>i. day (st ! i) = d) is)
      else map_of m d)"
  by (induction "is" arbitrary: m) (auto simp: map_of_pushToDay)

lemma map_of_eventsByDay:
  "map_of (eventsByDay st) d =
     (if \<exists>i < length st. day (st ! i) = d
      then Some (filter (\<lambda>i. day (st ! i) = d) [0..<length st]) else None)"
  by (simp add: eventsByDay_def map_of_fold_pushToDay)

lemma distinct_eventsByDay: "distinct (map fst (eventsByDay st))"
  by (simp add: eventsByDay_def distinct_fold_pushToDay)

lemma in_eventsByDay:
  "(d, l) \<in> set (eventsByDay st) \<longleftrightarrow>
     (\<exists>i < length st. day (st ! i) = d) \<and> l = filter (\<lambda>i. day (st ! i) = d) [0..<length st]"
proof -
  have "(d, l) \<in> set (eventsByDay st) \<longleftrightarrow> map_of (eventsByDay st) d = Some l"
    using distinct_eventsByDay [of st] by simp
  then show ?thesis by (auto simp: map_of_eventsByDay)
qed

subsection \<open>The whole function\<close>

lemma set_sortedDay: "set (sortedDay st d) = {i. i < length st \<and> day (st ! i) = d}"
  by (auto simp: sortedDay_def)

lemma distinct_sortedDay: "distinct (sortedDay st d)"
  by (simp add: sortedDay_def)

lemma sorted_sortedDay: "sorted (map (\<lambda>i. start (st ! i)) (sortedDay st d))"
  by (simp add: sortedDay_def)

lemma sortedDay_absent: "\<not> (\<exists>i < length st. day (st ! i) = d) \<Longrightarrow> sortedDay st d = []"
  by (simp add: sortedDay_def filter_empty_conv)

lemma hits_eventsByDay:
  "(\<Union>(d, l) \<in> set (eventsByDay st). hits st (sort_key (\<lambda>i. start (st ! i)) l)) =
     (\<Union>d. hits st (sortedDay st d))"
proof (intro set_eqI iffI)
  fix k assume "k \<in> (\<Union>(d, l) \<in> set (eventsByDay st). hits st (sort_key (\<lambda>i. start (st ! i)) l))"
  then obtain d l where "(d, l) \<in> set (eventsByDay st)"
    and "k \<in> hits st (sort_key (\<lambda>i. start (st ! i)) l)"
    by auto
  then have "k \<in> hits st (sortedDay st d)"
    by (simp add: in_eventsByDay sortedDay_def)
  then show "k \<in> (\<Union>d. hits st (sortedDay st d))" by blast
next
  fix k assume "k \<in> (\<Union>d. hits st (sortedDay st d))"
  then obtain d where k: "k \<in> hits st (sortedDay st d)" by blast
  then have "sortedDay st d \<noteq> []" by auto
  then have "\<exists>i < length st. day (st ! i) = d"
    using sortedDay_absent [of st d] by blast
  then have "(d, filter (\<lambda>i. day (st ! i) = d) [0..<length st]) \<in> set (eventsByDay st)"
    by (simp add: in_eventsByDay)
  with k show "k \<in> (\<Union>(d, l) \<in> set (eventsByDay st). hits st (sort_key (\<lambda>i. start (st ! i)) l))"
    unfolding sortedDay_def by blast
qed

lemma eventsByDay_in_range: "\<forall>(d, l) \<in> set (eventsByDay st). set l \<subseteq> {..<length st}"
  by (auto simp: in_eventsByDay)

lemma detectConflicts_markSet:
  "detectConflicts st =
     ((\<exists>d. hits st (sortedDay st d) \<noteq> {}), markSet (\<Union>d. hits st (sortedDay st d)) st)"
proof -
  have "fold (\<lambda>(d, l). scanDay l) (eventsByDay st) (markSet {} st, False) =
          (markSet (\<Union>(d, l) \<in> set (eventsByDay st). hits st (sort_key (\<lambda>i. start (st ! i)) l)) st,
           \<exists>(d, l) \<in> set (eventsByDay st). hits st (sort_key (\<lambda>i. start (st ! i)) l) \<noteq> {})"
    using fold_scanDay [OF eventsByDay_in_range, of st "{}" False] by simp
  moreover have "(\<exists>(d, l) \<in> set (eventsByDay st). hits st (sort_key (\<lambda>i. start (st ! i)) l) \<noteq> {}) \<longleftrightarrow>
                 (\<exists>d. hits st (sortedDay st d) \<noteq> {})"
    using hits_eventsByDay [of st] by blast
  ultimately show ?thesis
    by (simp add: detectConflicts_def hits_eventsByDay)
qed

lemma hits_day: "k \<in> hits st (sortedDay st d) \<Longrightarrow> k < length st \<and> day (st ! k) = d"
  using hits_subset [of st "sortedDay st d"] by (auto simp: set_sortedDay)

lemma conflict_after_detect:
  assumes "k < length st"
  shows "conflict (snd (detectConflicts st) ! k) \<longleftrightarrow>
           conflict (st ! k) \<or> k \<in> hits st (sortedDay st (day (st ! k)))"
proof -
  have "k \<in> (\<Union>d. hits st (sortedDay st d)) \<longleftrightarrow> k \<in> hits st (sortedDay st (day (st ! k)))"
    using hits_day [of k st] by blast
  then show ?thesis using assms by (simp add: detectConflicts_markSet nth_markSet)
qed

subsection \<open>Which positions a scan marks\<close>

lemma ex_nat_cases: "(\<exists>p::nat. Q p) \<longleftrightarrow> Q 0 \<or> (\<exists>p. Q (Suc p))"
proof
  assume "\<exists>p. Q p"
  then obtain p where p: "Q p" ..
  then show "Q 0 \<or> (\<exists>p. Q (Suc p))" by (cases p) auto
qed auto

lemma hits_iff:
  "k \<in> hits st l \<longleftrightarrow>
     (\<exists>p. Suc p < length l \<and> end' (st ! (l ! p)) > start (st ! (l ! Suc p)) \<and>
          (k = l ! p \<or> k = l ! Suc p))"
proof (induction st l rule: hits.induct)
  case (1 st c n rest)
  show ?case
    by (subst ex_nat_cases) (use 1 in auto)
qed simp_all

lemma hits_nth:
  assumes "distinct l" and "q < length l"
  shows "l ! q \<in> hits st l \<longleftrightarrow>
           (Suc q < length l \<and> end' (st ! (l ! q)) > start (st ! (l ! Suc q))) \<or>
           (0 < q \<and> end' (st ! (l ! (q - 1))) > start (st ! (l ! q)))"
proof
  assume "l ! q \<in> hits st l"
  then obtain p where p: "Suc p < length l" "end' (st ! (l ! p)) > start (st ! (l ! Suc p))"
    and "l ! q = l ! p \<or> l ! q = l ! Suc p"
    unfolding hits_iff by blast
  then have "q = p \<or> q = Suc p"
    using assms by (auto simp: nth_eq_iff_index_eq)
  then show "(Suc q < length l \<and> end' (st ! (l ! q)) > start (st ! (l ! Suc q))) \<or>
           (0 < q \<and> end' (st ! (l ! (q - 1))) > start (st ! (l ! q)))"
    using p by auto
next
  assume "(Suc q < length l \<and> end' (st ! (l ! q)) > start (st ! (l ! Suc q))) \<or>
           (0 < q \<and> end' (st ! (l ! (q - 1))) > start (st ! (l ! q)))"
  then show "l ! q \<in> hits st l"
  proof
    assume "Suc q < length l \<and> end' (st ! (l ! q)) > start (st ! (l ! Suc q))"
    then show ?thesis unfolding hits_iff by blast
  next
    assume a: "0 < q \<and> end' (st ! (l ! (q - 1))) > start (st ! (l ! q))"
    then obtain p where q: "q = Suc p" by (cases q) auto
    with a assms(2) show ?thesis unfolding hits_iff by auto
  qed
qed

subsection \<open>Adjacent comparison against pairwise comparison\<close>

lemma overlaps_sym: "overlaps a b \<longleftrightarrow> overlaps b a"
  by (auto simp: overlaps_def)

lemma hits_nonempty_iff:
  assumes "sorted (map (\<lambda>i. start (st ! i)) l)" and "distinct l"
    and "\<forall>i \<in> set l. start (st ! i) < end' (st ! i)"
  shows "hits st l \<noteq> {} \<longleftrightarrow>
           (\<exists>i \<in> set l. \<exists>j \<in> set l. i \<noteq> j \<and> overlaps (st ! i) (st ! j))"
  using assms
proof (induction st l rule: hits.induct)
  case (1 st c n rest)
  let ?P = "\<lambda>S. \<exists>i \<in> S. \<exists>j \<in> S. i \<noteq> j \<and> overlaps (st ! i) (st ! j)"
  have IH: "hits st (n # rest) \<noteq> {} \<longleftrightarrow> ?P (set (n # rest))"
    using 1 by simp
  have cn: "c \<noteq> n" and le: "start (st ! c) \<le> start (st ! n)"
    and valid_n: "start (st ! n) < end' (st ! n)"
    and least: "\<And>x. x \<in> set (n # rest) \<Longrightarrow> start (st ! n) \<le> start (st ! x)"
    using "1.prems" by auto
  show ?case
  proof
    assume "hits st (c # n # rest) \<noteq> {}"
    then consider "end' (st ! c) > start (st ! n)" | "hits st (n # rest) \<noteq> {}"
      by (auto split: if_splits)
    then show "?P (set (c # n # rest))"
    proof cases
      case 1
      then have "overlaps (st ! c) (st ! n)" using le valid_n by (simp add: overlaps_def)
      with cn show ?thesis by auto
    next
      case 2
      then have "?P (set (n # rest))" using IH by simp
      then show ?thesis by auto
    qed
  next
    assume "?P (set (c # n # rest))"
    then obtain i j where ij: "i \<in> set (c # n # rest)" "j \<in> set (c # n # rest)" "i \<noteq> j"
      "overlaps (st ! i) (st ! j)"
      by blast
    show "hits st (c # n # rest) \<noteq> {}"
    proof (cases "i = c \<or> j = c")
      case True
      then obtain x where x: "x \<in> set (n # rest)" "overlaps (st ! c) (st ! x)"
        using ij overlaps_sym [of "st ! i" "st ! j"] by auto
      then have "start (st ! x) < end' (st ! c)" by (simp add: overlaps_def)
      with least [OF x(1)] have "start (st ! n) < end' (st ! c)" by simp
      then show ?thesis by simp
    next
      case False
      then have "?P (set (n # rest))" using ij by auto
      then have "hits st (n # rest) \<noteq> {}" using IH by simp
      then show ?thesis by simp
    qed
  qed
qed auto

lemma any_hit_iff_any_overlap:
  assumes "\<forall>e \<in> set st. start e < end' e"
  shows "(\<exists>d. hits st (sortedDay st d) \<noteq> {}) \<longleftrightarrow>
           (\<exists>i < length st. \<exists>j < length st.
              i \<noteq> j \<and> day (st ! i) = day (st ! j) \<and> overlaps (st ! i) (st ! j))"
proof -
  have valid: "\<forall>i \<in> set (sortedDay st d). start (st ! i) < end' (st ! i)" for d
    using assms by (auto simp: set_sortedDay)
  have "hits st (sortedDay st d) \<noteq> {} \<longleftrightarrow>
          (\<exists>i \<in> set (sortedDay st d). \<exists>j \<in> set (sortedDay st d). i \<noteq> j \<and> overlaps (st ! i) (st ! j))"
    for d
    by (rule hits_nonempty_iff [OF sorted_sortedDay distinct_sortedDay valid])
  then have step: "(\<exists>d. hits st (sortedDay st d) \<noteq> {}) \<longleftrightarrow>
          (\<exists>d. \<exists>i \<in> set (sortedDay st d). \<exists>j \<in> set (sortedDay st d). i \<noteq> j \<and> overlaps (st ! i) (st ! j))"
    by simp
  show ?thesis
    unfolding step
  proof
    assume "\<exists>d. \<exists>i \<in> set (sortedDay st d). \<exists>j \<in> set (sortedDay st d).
              i \<noteq> j \<and> overlaps (st ! i) (st ! j)"
    then obtain d i j where "i \<in> set (sortedDay st d)" "j \<in> set (sortedDay st d)"
      and ij: "i \<noteq> j" "overlaps (st ! i) (st ! j)"
      by blast
    then have "i < length st" "j < length st" "day (st ! i) = day (st ! j)"
      by (simp_all add: set_sortedDay)
    with ij show "\<exists>i < length st. \<exists>j < length st.
              i \<noteq> j \<and> day (st ! i) = day (st ! j) \<and> overlaps (st ! i) (st ! j)"
      by (intro exI [of _ i] exI [of _ j] conjI)
  next
    assume "\<exists>i < length st. \<exists>j < length st.
              i \<noteq> j \<and> day (st ! i) = day (st ! j) \<and> overlaps (st ! i) (st ! j)"
    then obtain i j where "i < length st" "j < length st" "day (st ! i) = day (st ! j)"
      and ij: "i \<noteq> j" "overlaps (st ! i) (st ! j)"
      by blast
    then have "i \<in> set (sortedDay st (day (st ! i)))" "j \<in> set (sortedDay st (day (st ! i)))"
      by (simp_all add: set_sortedDay)
    with ij show "\<exists>d. \<exists>i \<in> set (sortedDay st d). \<exists>j \<in> set (sortedDay st d).
              i \<noteq> j \<and> overlaps (st ! i) (st ! j)"
      by (intro exI [of _ "day (st ! i)"] bexI [of _ i] bexI [of _ j] conjI)
  qed
qed

lemma hits_overlap:
  assumes "sorted (map (\<lambda>i. start (st ! i)) l)" and "distinct l"
    and "\<forall>i \<in> set l. start (st ! i) < end' (st ! i)" and "k \<in> hits st l"
  shows "\<exists>j \<in> set l. j \<noteq> k \<and> overlaps (st ! k) (st ! j)"
proof -
  from assms(4) obtain p where p: "Suc p < length l"
    "end' (st ! (l ! p)) > start (st ! (l ! Suc p))" and k: "k = l ! p \<or> k = l ! Suc p"
    unfolding hits_iff by blast
  have "start (st ! (l ! p)) \<le> start (st ! (l ! Suc p))"
    using sorted_nth_mono [OF assms(1), of p "Suc p"] p(1) by simp
  moreover have "start (st ! (l ! Suc p)) < end' (st ! (l ! Suc p))"
    using assms(3) p(1) by simp
  ultimately have ov: "overlaps (st ! (l ! p)) (st ! (l ! Suc p))"
    using p(2) by (simp add: overlaps_def)
  have ne: "l ! p \<noteq> l ! Suc p"
    using assms(2) p(1) by (simp add: nth_eq_iff_index_eq)
  from k show ?thesis
  proof
    assume "k = l ! p"
    with ov ne p(1) show ?thesis by (intro bexI [of _ "l ! Suc p"]) auto
  next
    assume "k = l ! Suc p"
    with ov ne p(1) show ?thesis
      by (intro bexI [of _ "l ! p"]) (auto simp: overlaps_sym [of "st ! (l ! Suc p)"])
  qed
qed

text \<open>
  The marks of \<^verbatim>\<open>detectConflicts\<close> are sound: on validated events, an event that the
  call newly marks does overlap another event of its day.
\<close>

lemma detectConflicts_sound:
  assumes "\<forall>e \<in> set st. start e < end' e" and "k < length st"
    and "conflict (snd (detectConflicts st) ! k)" and "\<not> conflict (st ! k)"
  shows "\<exists>j < length st. j \<noteq> k \<and> day (st ! j) = day (st ! k) \<and> overlaps (st ! k) (st ! j)"
proof -
  let ?l = "sortedDay st (day (st ! k))"
  have "k \<in> hits st ?l"
    using assms(2-4) by (simp add: conflict_after_detect)
  moreover have "\<forall>i \<in> set ?l. start (st ! i) < end' (st ! i)"
    using assms(1) by (auto simp: set_sortedDay)
  ultimately obtain j where "j \<in> set ?l" "j \<noteq> k" "overlaps (st ! k) (st ! j)"
    using hits_overlap [OF sorted_sortedDay distinct_sortedDay] by blast
  then show ?thesis by (auto simp: set_sortedDay)
qed

section \<open>The claims about conflict detection\<close>

text \<open>
  Claim C1 does not hold of the code. The scan compares each event with its successor
  in start order only, so an event that lies inside a long earlier event, but after a
  short one that ends before it starts, is not marked. With Monday events 09:00--12:00,
  09:30--10:00 and 10:30--11:00, the third overlaps the first and stays unmarked, while
  the pairwise comparison marks all three.
\<close>

theorem C1_nested_overlap_not_marked:
  "collectEvents (oneDay mon [mkEntry ''09:00'' ''12:00'' ''A'', mkEntry ''09:30'' ''10:00'' ''B'',
                              mkEntry ''10:30'' ''11:00'' ''C'']) =
     [mkEvent mon 540 720 ''A'', mkEvent mon 570 600 ''B'', mkEvent mon 630 660 ''C''] \<and>
   detectConflicts [mkEvent mon 540 720 ''A'', mkEvent mon 570 600 ''B'', mkEvent mon 630 660 ''C''] =
     (True, [(mkEvent mon 540 720 ''A'')\<lparr>conflict := True\<rparr>,
             (mkEvent mon 570 600 ''B'')\<lparr>conflict := True\<rparr>,
             mkEvent mon 630 660 ''C'']) \<and>
   markPairwise [mkEvent mon 540 720 ''A'', mkEvent mon 570 600 ''B'', mkEvent mon 630 660 ''C''] =
     [(mkEvent mon 540 720 ''A'')\<lparr>conflict := True\<rparr>,
      (mkEvent mon 570 600 ''B'')\<lparr>conflict := True\<rparr>,
      (mkEvent mon 630 660 ''C'')\<lparr>conflict := True\<rparr>] \<and>
   overlaps (mkEvent mon 630 660 ''C'') (mkEvent mon 540 720 ''A'')"
  by code_simp

text \<open>
  Claim C3. On validated events (each start below its end), the flag returned by
  \<^verbatim>\<open>detectConflicts\<close> is true exactly when two events at different positions of the
  array have the same day and overlapping intervals. When there is no such pair, the
  flag is false and the call changes nothing, so no event is marked. The statement is
  about every list, hence every input order. The flag is the one that decides the
  banner of the rendered calendar.
\<close>

theorem C3_flag_iff_some_overlap:
  assumes "\<forall>e \<in> set events. start e < end' e"
  shows "(fst (detectConflicts events) \<longleftrightarrow>
            (\<exists>i < length events. \<exists>j < length events.
               i \<noteq> j \<and> day (events ! i) = day (events ! j) \<and> overlaps (events ! i) (events ! j))) \<and>
         (\<not> (\<exists>i < length events. \<exists>j < length events.
               i \<noteq> j \<and> day (events ! i) = day (events ! j) \<and> overlaps (events ! i) (events ! j))
          \<longrightarrow> \<not> fst (detectConflicts events) \<and> snd (detectConflicts events) = events) \<and>
         (events = collectEvents sched \<and> events \<noteq> []
          \<longrightarrow> banner (renderCalendar sched) = fst (detectConflicts events))"
proof -
  note iff = any_hit_iff_any_overlap [OF assms]
  have bn: "events = collectEvents sched \<and> events \<noteq> []
          \<longrightarrow> banner (renderCalendar sched) = fst (detectConflicts events)"
    by (auto simp: renderCalendar_def Let_def split: prod.splits)
  have flag: "fst (detectConflicts events) \<longleftrightarrow> (\<exists>d. hits events (sortedDay events d) \<noteq> {})"
    by (simp add: detectConflicts_markSet)
  have "snd (detectConflicts events) = events" if "\<not> (\<exists>d. hits events (sortedDay events d) \<noteq> {})"
    using that by (simp add: detectConflicts_markSet)
  then show ?thesis using bn unfolding flag iff by blast
qed

theorem C3_flag_iff_some_overlap_witness:
  "start (mkEvent mon 540 620 ''CSE-1320'') < end' (mkEvent mon 540 620 ''CSE-1320'') \<and>
   start (mkEvent mon 600 660 ''MATH-2326'') < end' (mkEvent mon 600 660 ''MATH-2326'') \<and>
   overlaps (mkEvent mon 540 620 ''CSE-1320'') (mkEvent mon 600 660 ''MATH-2326'') \<and>
   fst (detectConflicts [mkEvent mon 540 620 ''CSE-1320'', mkEvent mon 600 660 ''MATH-2326''])"
proof -
  let ?a = "mkEvent mon 540 620 ''CSE-1320''" and ?b = "mkEvent mon 600 660 ''MATH-2326''"
  have va: "start ?a < end' ?a" and vb: "start ?b < end' ?b" and ov: "overlaps ?a ?b"
    by (simp_all add: mkEvent_def overlaps_def)
  have valid: "\<forall>e \<in> set [?a, ?b]. start e < end' e" using va vb by simp
  have "\<exists>i < length [?a, ?b]. \<exists>j < length [?a, ?b].
          i \<noteq> j \<and> day ([?a, ?b] ! i) = day ([?a, ?b] ! j) \<and> overlaps ([?a, ?b] ! i) ([?a, ?b] ! j)"
  proof (intro exI conjI)
    show "(0::nat) < length [?a, ?b]" by simp
    show "(1::nat) < length [?a, ?b]" by simp
    show "(0::nat) \<noteq> 1" by simp
    show "day ([?a, ?b] ! 0) = day ([?a, ?b] ! 1)" by (simp add: mkEvent_def)
    show "overlaps ([?a, ?b] ! 0) ([?a, ?b] ! 1)" using ov by simp
  qed
  then have "fst (detectConflicts [?a, ?b])"
    using C3_flag_iff_some_overlap [OF valid] by blast
  with va vb ov show ?thesis by (intro conjI)
qed

text \<open>
  Claim C4, as stated, fails in its first half: a back-to-back pair can have a member
  that is marked because of its other neighbour. With Monday events 09:00--10:00,
  10:00--11:00 and 10:30--11:30, the first two are adjacent in start order and
  back-to-back, and the second is marked, since it overlaps the third.
\<close>

theorem C4_back_to_back_counterexample:
  "sortedDay [mkEvent mon 540 600 ''A'', mkEvent mon 600 660 ''B'', mkEvent mon 630 690 ''C''] mon =
     [0, 1, 2] \<and>
   end' (mkEvent mon 540 600 ''A'') = start (mkEvent mon 600 660 ''B'') \<and>
   conflict (snd (detectConflicts
     [mkEvent mon 540 600 ''A'', mkEvent mon 600 660 ''B'', mkEvent mon 630 690 ''C'']) ! 1)"
  by code_simp

text \<open>
  Claim C4, amended. Let two events of a day be adjacent in start order (positions \<open>p\<close>
  and \<open>p + 1\<close> of the day's sorted list, which is the list the loop scans for that day). If the end of the earlier one is greater than
  the start of the later one, as when it equals that start plus one minute, both are
  marked. If the end of the earlier one equals the start of the later one, the
  comparison of this pair marks neither: after the call the earlier one is marked only
  if it was marked before or the event before it in start order ends after its start,
  and the later one is marked only if it was marked before or its end is after the
  start of the event that follows it.
\<close>

theorem C4_adjacent_pair_marking:
  assumes "Suc p < length (sortedDay events d)"
  shows "(\<exists>l. (d, l) \<in> set (eventsByDay events) \<and>
              sortedDay events d = sort_key (\<lambda>i. start (events ! i)) l) \<and>
         (end' (events ! (sortedDay events d ! p)) = start (events ! (sortedDay events d ! Suc p)) + 1
            \<or> end' (events ! (sortedDay events d ! p)) > start (events ! (sortedDay events d ! Suc p))
          \<longrightarrow> conflict (snd (detectConflicts events) ! (sortedDay events d ! p)) \<and>
              conflict (snd (detectConflicts events) ! (sortedDay events d ! Suc p))) \<and>
         (end' (events ! (sortedDay events d ! p)) = start (events ! (sortedDay events d ! Suc p))
          \<longrightarrow> (conflict (snd (detectConflicts events) ! (sortedDay events d ! p)) \<longleftrightarrow>
                 conflict (events ! (sortedDay events d ! p)) \<or>
                 (0 < p \<and> end' (events ! (sortedDay events d ! (p - 1))) >
                          start (events ! (sortedDay events d ! p)))) \<and>
              (conflict (snd (detectConflicts events) ! (sortedDay events d ! Suc p)) \<longleftrightarrow>
                 conflict (events ! (sortedDay events d ! Suc p)) \<or>
                 (Suc (Suc p) < length (sortedDay events d) \<and>
                  end' (events ! (sortedDay events d ! Suc p)) >
                    start (events ! (sortedDay events d ! Suc (Suc p))))))"
proof -
  let ?l = "sortedDay events d"
  let ?st' = "snd (detectConflicts events)"
  have p: "p < length ?l" and sp: "Suc p < length ?l" using assms by simp_all
  have mem: "?l ! p \<in> set ?l" "?l ! Suc p \<in> set ?l" using p sp by simp_all
  then have rng: "?l ! p < length events" "?l ! Suc p < length events"
    and dy: "day (events ! (?l ! p)) = d" "day (events ! (?l ! Suc p)) = d"
    by (simp_all add: set_sortedDay)
  have a: "conflict (?st' ! (?l ! p)) \<longleftrightarrow>
             conflict (events ! (?l ! p)) \<or>
             (Suc p < length ?l \<and> end' (events ! (?l ! p)) > start (events ! (?l ! Suc p))) \<or>
             (0 < p \<and> end' (events ! (?l ! (p - 1))) > start (events ! (?l ! p)))"
    using hits_nth [OF distinct_sortedDay p, of events]
    by (simp add: conflict_after_detect [OF rng(1)] dy)
  have b: "conflict (?st' ! (?l ! Suc p)) \<longleftrightarrow>
             conflict (events ! (?l ! Suc p)) \<or>
             (Suc (Suc p) < length ?l \<and>
              end' (events ! (?l ! Suc p)) > start (events ! (?l ! Suc (Suc p)))) \<or>
             end' (events ! (?l ! p)) > start (events ! (?l ! Suc p))"
    using hits_nth [OF distinct_sortedDay sp, of events]
    by (simp add: conflict_after_detect [OF rng(2)] dy)
  have "(d, filter (\<lambda>i. day (events ! i) = d) [0..<length events]) \<in> set (eventsByDay events)"
    using rng(1) dy(1) by (auto simp: in_eventsByDay)
  then have c: "\<exists>l. (d, l) \<in> set (eventsByDay events) \<and>
                  sortedDay events d = sort_key (\<lambda>i. start (events ! i)) l"
    unfolding sortedDay_def by blast
  show ?thesis
    unfolding a b using sp c by auto
qed

theorem C4_adjacent_pair_marking_witness:
  "sortedDay [mkEvent mon 620 660 ''B'', mkEvent mon 540 620 ''A''] mon = [1, 0] \<and>
   end' (mkEvent mon 540 620 ''A'') = start (mkEvent mon 620 660 ''B'') \<and>
   \<not> conflict (snd (detectConflicts [mkEvent mon 620 660 ''B'', mkEvent mon 540 620 ''A'']) ! 1) \<and>
   \<not> conflict (snd (detectConflicts [mkEvent mon 620 660 ''B'', mkEvent mon 540 620 ''A'']) ! 0)"
proof -
  let ?evs = "[mkEvent mon 620 660 ''B'', mkEvent mon 540 620 ''A'']"
  have l: "sortedDay ?evs mon = [1, 0]" by code_simp
  have len: "Suc 0 < length (sortedDay ?evs mon)" by (simp add: l)
  have eq: "end' (mkEvent mon 540 620 ''A'') = start (mkEvent mon 620 660 ''B'')"
    by (simp add: mkEvent_def)
  have "\<not> conflict (snd (detectConflicts ?evs) ! 1) \<and> \<not> conflict (snd (detectConflicts ?evs) ! 0)"
    using C4_adjacent_pair_marking [OF len, unfolded l, THEN conjunct2] by (simp add: mkEvent_def)
  with l eq show ?thesis by (intro conjI) simp_all
qed

text \<open>
  Claim C10. \<^verbatim>\<open>detectConflicts\<close> leaves the array of events as long as it was, with
  the same object at every position: day, start, end, course, title and professor are
  unchanged, the object differs from the one before the call in its conflict flag at
  most, and a flag that was true is true afterwards.
\<close>

theorem C10_only_conflict_flag_set:
  "length (snd (detectConflicts events)) = length events \<and>
   (\<forall>k < length events.
      snd (detectConflicts events) ! k =
        (events ! k)\<lparr>conflict := conflict (snd (detectConflicts events) ! k)\<rparr> \<and>
      day (snd (detectConflicts events) ! k) = day (events ! k) \<and>
      start (snd (detectConflicts events) ! k) = start (events ! k) \<and>
      end' (snd (detectConflicts events) ! k) = end' (events ! k) \<and>
      course (snd (detectConflicts events) ! k) = course (events ! k) \<and>
      title (snd (detectConflicts events) ! k) = title (events ! k) \<and>
      prof (snd (detectConflicts events) ! k) = prof (events ! k) \<and>
      (conflict (events ! k) \<longrightarrow> conflict (snd (detectConflicts events) ! k)))"
  by (simp add: detectConflicts_markSet nth_markSet)

theorem C10_only_conflict_flag_set_witness:
  "length (snd (detectConflicts
      [mkEvent mon 540 620 ''CSE-1320'', (mkEvent tue 600 660 ''MATH-2326'')\<lparr>conflict := True\<rparr>])) = 2 \<and>
   start (snd (detectConflicts
      [mkEvent mon 540 620 ''CSE-1320'', (mkEvent tue 600 660 ''MATH-2326'')\<lparr>conflict := True\<rparr>]) ! 1) = 600 \<and>
   conflict (snd (detectConflicts
      [mkEvent mon 540 620 ''CSE-1320'', (mkEvent tue 600 660 ''MATH-2326'')\<lparr>conflict := True\<rparr>]) ! 1)"
proof -
  let ?evs = "[mkEvent mon 540 620 ''CSE-1320'', (mkEvent tue 600 660 ''MATH-2326'')\<lparr>conflict := True\<rparr>]"
  note t = C10_only_conflict_flag_set [of ?evs]
  have k: "1 < length ?evs" by simp
  from t have "length (snd (detectConflicts ?evs)) = length ?evs" by (rule conjunct1)
  then have a: "length (snd (detectConflicts ?evs)) = 2" by simp
  from t k have "start (snd (detectConflicts ?evs) ! 1) = start (?evs ! 1)"
    and "conflict (?evs ! 1) \<longrightarrow> conflict (snd (detectConflicts ?evs) ! 1)"
    by blast+
  then have "start (snd (detectConflicts ?evs) ! 1) = 600"
    and "conflict (snd (detectConflicts ?evs) ! 1)"
    by (simp_all add: mkEvent_def)
  with a show ?thesis by (intro conjI)
qed

end
